theory Spec2Isabelle
  imports Main "HOL-Library.Word"
begin

unbundle bit_operations_syntax

section \<open>The address analyzer of \<open>main.go\<close>\<close>

text \<open>
  The program reads an address with a prefix length, walks over the host addresses of
  that network and pings each of them from a goroutine of its own. This theory embeds
  \<open>analyze\<close>, \<open>increment\<close> and \<open>pingAddress\<close> and the few functions of Go's
  \<open>net\<close> package and of \<open>go-ping\<close> they call.

  Conventions.
  \<^item> A \<open>net.IP\<close> and a \<open>net.IPMask\<close> are byte slices: lists of 8-bit words.
  \<^item> Go's \<open>int\<close> is taken to be 64 bits wide (the usual platforms); where a value can
    leave that range the wrap-around is written out (\<open>int64\<close>).
  \<^item> An index out of range panics in Go. A panic and the error value \<open>analyze\<close> returns
    are the two constructors of \<open>fault\<close>; a function that can fail returns
    \<open>fault + 'a\<close>.
  \<^item> \<open>net.ParseCIDR\<close> and \<open>pinger.Run\<close> belong to libraries, not to the repository:
    they are parameters of the functions that call them. \<open>ParseCIDR4\<close> below is the
    dotted-quad form of \<open>net.ParseCIDR\<close>, used to run the model on concrete strings.
  \<^item> The analyzer is made for IPv4 (\<open>increment\<close> has the index 3 of the last of four
    bytes written into it): the properties of \<open>analyze\<close> on a string that parses are
    stated for the networks \<open>net.ParseCIDR\<close> gives for IPv4 strings (\<open>valid4\<close>).
\<close>

subsection \<open>Data\<close>

type_synonym byte = "8 word"
type_synonym IP = "byte list"
type_synonym IPMask = "byte list"

record IPNet =
  IP :: IP
  Mask :: IPMask

datatype fault =
    InvalidAddress string  \<comment> \<open>the error \<open>analyze\<close> returns, with its message\<close>
  | IndexOutOfRange        \<comment> \<open>the run-time panic of a slice index out of range\<close>

subsection \<open>The \<open>net\<close> package, as far as \<open>analyze\<close> uses it\<close>

text \<open>The bits of a byte and of a mask, most significant first.\<close>

definition bitsOf :: "byte \<Rightarrow> bool list" where
  "bitsOf b = map (bit b) [7, 6, 5, 4, 3, 2, 1, 0]"

definition maskBits :: "IPMask \<Rightarrow> bool list" where
  "maskBits m = concat (map bitsOf m)"

text \<open>
  \<open>IPMask.Size\<close>: the number of leading ones and the total number of bits of the mask;
  \<open>(0, 0)\<close> when the mask is not ones followed by zeros.
\<close>

definition Size :: "IPMask \<Rightarrow> nat \<times> nat" where
  "Size m =
     (let bs = maskBits m; ones = length (takeWhile id bs)
      in if True \<in> set (drop ones bs) then (0, 0) else (ones, 8 * length m))"

text \<open>
  \<open>CIDRMask ones bits\<close>: the mask of \<open>bits\<close> bits whose first \<open>ones\<close> bits are set;
  nil (the empty slice) for any other total than 32 or 128 and for \<open>ones > bits\<close>.
  Each byte is \<open>0xff\<close> while eight ones are left, then \<open>^byte(0xff >> n)\<close>.
\<close>

fun maskBytes :: "nat \<Rightarrow> nat \<Rightarrow> IPMask" where
  "maskBytes 0 n = []"
| "maskBytes (Suc l) n =
     (if 8 \<le> n then 255 # maskBytes l (n - 8)
      else NOT (drop_bit n (255 :: byte)) # maskBytes l 0)"

definition CIDRMask :: "nat \<Rightarrow> nat \<Rightarrow> IPMask" where
  "CIDRMask ones bits =
     (if bits \<noteq> 32 \<and> bits \<noteq> 128 then []
      else if bits < ones then []
      else maskBytes (bits div 8) ones)"

text \<open>
  \<open>IP.Mask\<close>: the bytes' conjunction for an address and a mask of the same length, nil
  for different lengths. (The library first brings a 16-byte IPv4 address or mask to
  4 bytes; the addresses here have 4 bytes from the start.)
\<close>

definition IP_Mask :: "IP \<Rightarrow> IPMask \<Rightarrow> IP" where
  "IP_Mask ip m = (if length ip \<noteq> length m then [] else map2 (AND) ip m)"

text \<open>
  \<open>IP.String\<close>: dotted decimal for a 4-byte address, \<open><nil>\<close> for the empty slice and
  a question mark followed by the bytes in hexadecimal otherwise. (The 16-byte textual
  form is not modelled: the analyzer is run on IPv4 networks.)
\<close>

fun uitoa :: "nat \<Rightarrow> string" where
  "uitoa n = (if n < 10 then [char_of (48 + n)] else uitoa (n div 10) @ [char_of (48 + n mod 10)])"

definition hexDigit :: "nat \<Rightarrow> char" where
  "hexDigit d = (if d < 10 then char_of (48 + d) else char_of (87 + d))"

definition hexString :: "byte list \<Rightarrow> string" where
  "hexString bs = concat (map (\<lambda>b. [hexDigit (unat b div 16), hexDigit (unat b mod 16)]) bs)"

definition IP_String :: "IP \<Rightarrow> string" where
  "IP_String ip =
     (case ip of
        [] \<Rightarrow> ''<nil>''
      | [a, b, c, d] \<Rightarrow>
          uitoa (unat a) @ ''.'' @ uitoa (unat b) @ ''.'' @ uitoa (unat c) @ ''.'' @ uitoa (unat d)
      | _ \<Rightarrow> ''?'' @ hexString ip)"

text \<open>
  The dotted-quad form of \<open>net.ParseCIDR\<close>: the text before the first slash is four
  decimal fields separated by dots, each at most 255 and without a leading zero; the
  text after it is a decimal prefix length of at most 32. The network keeps the
  address masked by \<open>CIDRMask n 32\<close>.
\<close>

definition isDigit :: "char \<Rightarrow> bool" where
  "isDigit c = (48 \<le> (of_char c :: nat) \<and> (of_char c :: nat) \<le> 57)"

definition digitVal :: "char \<Rightarrow> nat" where
  "digitVal c = of_char c - 48"

definition big :: nat where
  "big = 16777215"

text \<open>\<open>dtoi\<close>: the number read, the characters consumed and whether a number was read.\<close>

fun dtoi_loop :: "string \<Rightarrow> nat \<Rightarrow> nat \<Rightarrow> nat \<times> nat \<times> bool" where
  "dtoi_loop [] n i = (if i = 0 then (0, 0, False) else (n, i, True))"
| "dtoi_loop (c # cs) n i =
     (if isDigit c
      then (let n' = n * 10 + digitVal c
            in if big \<le> n' then (big, i, False) else dtoi_loop cs n' (i + 1))
      else if i = 0 then (0, 0, False) else (n, i, True))"

definition dtoi :: "string \<Rightarrow> nat \<times> nat \<times> bool" where
  "dtoi s = dtoi_loop s 0 0"

fun splitDots :: "string \<Rightarrow> string list" where
  "splitDots [] = [[]]"
| "splitDots (c # cs) =
     (if c = CHR ''.'' then [] # splitDots cs
      else (case splitDots cs of [] \<Rightarrow> [[c]] | f # fs \<Rightarrow> (c # f) # fs))"

definition parseField :: "string \<Rightarrow> byte option" where
  "parseField f =
     (if f = [] \<or> 3 < length f then None
      else if list_all isDigit f \<and> (length f = 1 \<or> hd f \<noteq> CHR ''0'')
      then (case dtoi f of (n, _, _) \<Rightarrow> if n \<le> 255 then Some (of_nat n) else None)
      else None)"

definition parseIPv4 :: "string \<Rightarrow> IP option" where
  "parseIPv4 s =
     (case map parseField (splitDots s) of
        [Some a, Some b, Some c, Some d] \<Rightarrow> Some [a, b, c, d]
      | _ \<Rightarrow> None)"

definition ParseCIDR4 :: "string \<Rightarrow> IPNet option" where
  "ParseCIDR4 s =
     (if CHR ''/'' \<in> set s
      then (let addr = takeWhile (\<lambda>c. c \<noteq> CHR ''/'') s;
                msk = tl (dropWhile (\<lambda>c. c \<noteq> CHR ''/'') s)
            in case parseIPv4 addr of
                 None \<Rightarrow> None
               | Some ip \<Rightarrow>
                   (case dtoi msk of
                      (n, i, ok) \<Rightarrow>
                        if ok \<and> i = length msk \<and> n \<le> 32
                        then Some \<lparr>IP = IP_Mask ip (CIDRMask n 32), Mask = CIDRMask n 32\<rparr>
                        else None))
      else None)"

subsection \<open>\<open>increment\<close>\<close>

text \<open>
  The loop \<open>for (*address)[lastOctet] == 254 { lastOctet++ }\<close>: the first index from
  \<open>lastOctet\<close> on whose byte is not 254. Reading the byte at an index beyond the slice
  panics.
\<close>

function increment_scan :: "IP \<Rightarrow> nat \<Rightarrow> fault + nat" where
  "increment_scan address lastOctet =
     (if length address \<le> lastOctet then Inl IndexOutOfRange
      else if address ! lastOctet = 254 then increment_scan address (lastOctet + 1)
      else Inr lastOctet)"
  by pat_completeness auto
termination
  by (relation "measure (\<lambda>(address, lastOctet). length address - lastOctet)") auto

text \<open>
  \<open>increment(address, lastOctet, numberToIcrementBy)\<close>. The guard reads byte 3 only when
  \<open>lastOctet\<close> is 3; \<open>byte(numberToIcrementBy)\<close> keeps the low eight bits, and the
  addition on bytes wraps around. (\<open>lastOctet\<close> is a natural number here: its only
  caller passes the quotient of a count by 8.)
\<close>

definition increment :: "IP \<Rightarrow> nat \<Rightarrow> int \<Rightarrow> fault + IP" where
  "increment address lastOctet numberToIcrementBy =
     (if lastOctet = 3 \<and> length address \<le> 3 then Inl IndexOutOfRange
      else if lastOctet = 3 \<and> address ! 3 = 255 then Inr address
      else (case increment_scan address lastOctet of
              Inl p \<Rightarrow> Inl p
            | Inr j \<Rightarrow> Inr (address[j := address ! j + word_of_int numberToIcrementBy])))"

subsection \<open>\<open>pingAddress\<close>\<close>

text \<open>
  The fields of go-ping's \<open>Pinger\<close> that the program sets or reads. \<open>New\<close> gives the
  library's defaults: no limit on the number of packets and no timeout. A duration counts
  nanoseconds.
\<close>

record Pinger =
  addr :: string
  Count :: int
  Timeout :: int
  PacketsRecv :: int

definition Second :: int where
  "Second = 1000000000"

definition New :: "string \<Rightarrow> Pinger" where
  "New a = \<lparr>addr = a, Count = - 1, Timeout = 9223372036854775807, PacketsRecv = 0\<rparr>"

text \<open>
  \<open>pinger.Run()\<close> is the library's: it takes the configured pinger and gives the error
  it returns (\<open>None\<close> for nil) and the pinger with its statistics. \<open>pingAddress\<close>
  returns \<open>(false, err)\<close> on an error, here \<open>Inl err\<close>: its caller drops the verdict.
\<close>

type_synonym runner = "Pinger \<Rightarrow> string option \<times> Pinger"

definition pingAddress :: "runner \<Rightarrow> IP \<Rightarrow> string + bool" where
  "pingAddress Run address =
     (let pinger = New (IP_String address);
          pinger = pinger\<lparr>Count := 2\<rparr>;
          pinger = pinger\<lparr>Timeout := 5 * Second\<rparr>
      in case Run pinger of
           (Some err, _) \<Rightarrow> Inl err
         | (None, pinger') \<Rightarrow> if 0 < PacketsRecv pinger' then Inr True else Inr False)"

subsection \<open>\<open>analyze\<close>\<close>

text \<open>Two's complement wrap-around of a 64-bit \<open>int\<close>, and \<open>1 << n\<close> on it.\<close>

definition int64 :: "int \<Rightarrow> int" where
  "int64 x = signed_take_bit 63 x"

definition shl1 :: "nat \<Rightarrow> int" where
  "shl1 n = (if n < 64 then int64 (2 ^ n) else 0)"

text \<open>
  The loop \<open>for i := 1; i < maximumNumberOfHostst+1; i++\<close>. Each round increments the
  network's address in place and starts a goroutine on a copy of it. The loop gives the
  addresses it has started a probe for, in order, and either the panic that stopped it
  or the address it ended on. (\<open>i\<close> stays below the bound, so \<open>i++\<close> cannot overflow.)
\<close>

function hostLoop :: "nat \<Rightarrow> int \<Rightarrow> int \<Rightarrow> IP \<Rightarrow> IP list \<Rightarrow> IP list \<times> (fault + IP)" where
  "hostLoop lastOctet bound i ip started =
     (if i < bound
      then (case increment ip lastOctet 1 of
              Inl p \<Rightarrow> (started, Inl p)
            | Inr currentIP \<Rightarrow> hostLoop lastOctet bound (i + 1) currentIP (started @ [currentIP]))
      else (started, Inr ip))"
  by pat_completeness auto
termination
  by (relation "measure (\<lambda>(lastOctet, bound, i, ip, started). nat (bound - i))") auto

declare hostLoop.simps [simp del]

text \<open>
  The address pool is a \<open>map[*net.IP]bool\<close>: its keys are pointers. Every goroutine
  stores under \<open>&ip\<close>, the address of its own parameter, so the key is the cell of
  that parameter. Cells are numbered in the order of their allocation; \<open>cells\<close> holds
  their contents.
\<close>

type_synonym ref = nat
type_synonym pool = "ref \<rightharpoonup> bool"

text \<open>
  One goroutine, run to its end: its parameter \<open>ip\<close> gets a fresh cell; a probe that
  errs leaves the pool alone; any other stores the verdict under the cell.
\<close>

definition task :: "runner \<Rightarrow> IP \<Rightarrow> IP list \<times> pool \<Rightarrow> IP list \<times> pool" where
  "task Run ip st =
     (case st of
        (cs, addressPool) \<Rightarrow>
          (case pingAddress Run ip of
             Inl err \<Rightarrow> (cs @ [ip], addressPool)
           | Inr used \<Rightarrow> (cs @ [ip], addressPool(length cs \<mapsto> used))))"

text \<open>
  What a call leaves behind besides its result: the cells allocated so far and the
  addresses a probe was started for.
\<close>

record world =
  cells :: "IP list"
  probes :: "IP list"

text \<open>
  \<open>analyze\<close>. The mask's \<open>Size\<close> never has more ones than bits, so the shift count
  \<open>numberOfAddressBits - numberOfAddessOnes\<close> is not negative. The index handed to
  \<open>increment\<close> is \<open>int(math.Round(float64(numberOfAddessOnes/8)))\<close>: the integer
  quotient, which the conversion to \<open>float64\<close> and the rounding leave as it is.
  After the loop, \<open>a.wg.Wait()\<close> returns once every goroutine is done; each writes a
  key of its own under the lock, so the pool after the wait is the one the goroutines
  build in any order, here the order they were started in. A panic in the loop ends the
  program: no pool is returned.
\<close>

definition analyze ::
  "(string \<Rightarrow> IPNet option) \<Rightarrow> runner \<Rightarrow> world \<Rightarrow> string \<Rightarrow> (fault + pool) \<times> world" where
  "analyze ParseCIDR Run w adessWithPrefix =
     (case ParseCIDR adessWithPrefix of
        None \<Rightarrow> (Inl (InvalidAddress (''Invalid address: '' @ adessWithPrefix)), w)
      | Some network \<Rightarrow>
          (case Size (Mask network) of
             (numberOfAddessOnes, numberOfAddressBits) \<Rightarrow>
               (let maximumNumberOfHostst =
                      int64 (shl1 (numberOfAddressBits - numberOfAddessOnes) - 2)
                in case hostLoop (numberOfAddessOnes div 8) (int64 (maximumNumberOfHostst + 1))
                          1 (IP network) [] of
                     (started, Inl p) \<Rightarrow> (Inl p, w\<lparr>probes := probes w @ started\<rparr>)
                   | (started, Inr _) \<Rightarrow>
                       (case fold (task Run) started (cells w, Map.empty) of
                          (cs, addressPool) \<Rightarrow>
                            (Inr addressPool, \<lparr>cells = cs, probes = probes w @ started\<rparr>)))))"

subsection \<open>Notions the properties are stated with\<close>

text \<open>
  What \<open>net.ParseCIDR\<close> gives for an IPv4 string: a 4-byte address and the mask
  \<open>CIDRMask n 32\<close> of some prefix length \<open>n\<close>, the address masked by it.
\<close>

definition valid4 :: "IPNet \<Rightarrow> bool" where
  "valid4 network =
     (length (IP network) = 4 \<and> snd (Size (Mask network)) = 32 \<and>
      Mask network = CIDRMask (fst (Size (Mask network))) 32 \<and>
      IP_Mask (IP network) (Mask network) = IP network)"

text \<open>The prefix length and the number of host bits of a network.\<close>

definition prefixBits :: "IPNet \<Rightarrow> nat" where
  "prefixBits network = fst (Size (Mask network))"

definition hostBits :: "IPNet \<Rightarrow> nat" where
  "hostBits network = snd (Size (Mask network)) - fst (Size (Mask network))"

text \<open>An address as a number, first byte most significant.\<close>

definition ipval :: "IP \<Rightarrow> nat" where
  "ipval ip = foldl (\<lambda>n b. 256 * n + unat b) 0 ip"

text \<open>The broadcast address of a network: every host bit set.\<close>

definition broadcast :: "IPNet \<Rightarrow> IP" where
  "broadcast network = map2 (\<lambda>b m. b OR NOT m) (IP network) (Mask network)"

text \<open>The addresses a call has started a probe for.\<close>

definition startedBy :: "world \<Rightarrow> world \<Rightarrow> IP list" where
  "startedBy w w' = drop (length (probes w)) (probes w')"

text \<open>
  How many more times the bytes from index \<open>k\<close> on can be incremented before all of
  them are 254, and the shape the loop keeps: four bytes, none of those above 254.
\<close>

definition room :: "nat \<Rightarrow> IP \<Rightarrow> nat" where
  "room k a = sum_list (map (\<lambda>b. 254 - unat b) (drop k a))"

definition walkable :: "nat \<Rightarrow> IP \<Rightarrow> bool" where
  "walkable k a = (length a = 4 \<and> k \<le> 3 \<and> list_all (\<lambda>b. unat b \<le> 254) (drop k a))"

section \<open>Properties\<close>

subsection \<open>The scan of \<open>increment\<close>\<close>

lemma scan_Inr:
  "increment_scan a k = Inr j \<Longrightarrow> k \<le> j \<and> j < length a \<and> a ! j \<noteq> 254 \<and> (\<forall>i. k \<le> i \<and> i < j \<longrightarrow> a ! i = 254)"
proof (induction a k rule: increment_scan.induct)
  case (1 a k)
  show ?case
  proof (cases "length a \<le> k")
    case True
    with "1.prems" show ?thesis by auto
  next
    case False
    show ?thesis
    proof (cases "a ! k = 254")
      case True
      with False "1.prems" have "increment_scan a (k + 1) = Inr j" by simp
      from "1.IH" [OF False True this] True show ?thesis
        by (metis Suc_eq_plus1 Suc_leD le_antisym not_less_eq_eq)
    next
      case f: False
      with False "1.prems" show ?thesis by auto
    qed
  qed
qed

lemma scan_Inl:
  "increment_scan a k = Inl p \<Longrightarrow> p = IndexOutOfRange \<and> (\<forall>i. k \<le> i \<and> i < length a \<longrightarrow> a ! i = 254)"
proof (induction a k rule: increment_scan.induct)
  case (1 a k)
  show ?case
  proof (cases "length a \<le> k")
    case True
    with "1.prems" show ?thesis by auto
  next
    case False
    show ?thesis
    proof (cases "a ! k = 254")
      case True
      with False "1.prems" have "increment_scan a (k + 1) = Inl p" by simp
      from "1.IH" [OF False True this] True show ?thesis
        by (metis Suc_eq_plus1 le_antisym not_less_eq_eq)
    next
      case f: False
      with False "1.prems" show ?thesis by auto
    qed
  qed
qed

lemma scan_found:
  "k \<le> j \<Longrightarrow> j < length a \<Longrightarrow> a ! j \<noteq> 254 \<Longrightarrow> (\<forall>i. k \<le> i \<and> i < j \<longrightarrow> a ! i = 254)
   \<Longrightarrow> increment_scan a k = Inr j"
proof (induction a k rule: increment_scan.induct)
  case (1 a k)
  show ?case
  proof (cases "k = j")
    case True
    with "1.prems" show ?thesis by simp
  next
    case False
    with "1.prems" have kj: "k < j" by simp
    with "1.prems" have a: "\<not> length a \<le> k" "a ! k = 254" by auto
    have "increment_scan a (k + 1) = Inr j"
      using "1.IH" [OF a] "1.prems" kj by simp
    with a show ?thesis by simp
  qed
qed

subsection \<open>\<open>increment\<close>\<close>

lemma four_bytes: "length a = 4 \<Longrightarrow> \<exists>a0 a1 a2 a3. a = [a0, a1, a2, a3]"
  by (cases a; simp; rename_tac b bs; case_tac bs; simp; rename_tac c cs; case_tac cs; simp;
      rename_tac d ds; case_tac ds; simp)

text \<open>
  One step of the walk. While no byte from index \<open>k\<close> on is above 254, an increment
  either raises one of these bytes below 254 by one, or finds all of them at 254 and
  runs off the end of the slice.
\<close>

lemma walkable_iff:
  "walkable k a \<longleftrightarrow> length a = 4 \<and> k \<le> 3 \<and> (\<forall>j. k \<le> j \<and> j < 4 \<longrightarrow> unat (a ! j) \<le> 254)"
proof -
  have "length a = 4 \<Longrightarrow> k \<le> 3 \<Longrightarrow>
        list_all (\<lambda>b. unat b \<le> 254) (drop k a) \<longleftrightarrow> (\<forall>j. k \<le> j \<and> j < 4 \<longrightarrow> unat (a ! j) \<le> 254)"
  proof (rule iffI)
    assume l: "length a = 4" "k \<le> 3" and h: "list_all (\<lambda>b. unat b \<le> 254) (drop k a)"
    show "\<forall>j. k \<le> j \<and> j < 4 \<longrightarrow> unat (a ! j) \<le> 254"
    proof (intro allI impI)
      fix j assume j: "k \<le> j \<and> j < 4"
      with l have "j - k < length (drop k a)" by auto
      with h have "unat (drop k a ! (j - k)) \<le> 254" by (simp add: list_all_length)
      with j l show "unat (a ! j) \<le> 254" by simp
    qed
  next
    assume l: "length a = 4" "k \<le> 3" and h: "\<forall>j. k \<le> j \<and> j < 4 \<longrightarrow> unat (a ! j) \<le> 254"
    show "list_all (\<lambda>b. unat b \<le> 254) (drop k a)"
      unfolding list_all_length
    proof (intro allI impI)
      fix n assume "n < length (drop k a)"
      with l have "k \<le> k + n \<and> k + n < 4" by simp
      with h have "unat (a ! (k + n)) \<le> 254" by blast
      with l show "unat (drop k a ! n) \<le> 254" by simp
    qed
  qed
  then show ?thesis by (auto simp add: walkable_def)
qed

lemma ipval4: "ipval [a0, a1, a2, a3] = ((unat a0 * 256 + unat a1) * 256 + unat a2) * 256 + unat a3"
  by (simp add: ipval_def)

lemma byte_succ: "unat (b :: byte) < 254 \<Longrightarrow> unat (b + 1) = Suc (unat b)"
  by (simp add: unat_word_ariths)

lemma increment_shape:
  assumes "walkable k a" and "increment a k 1 = Inr a'"
  shows "\<exists>j. k \<le> j \<and> j < 4 \<and> unat (a ! j) < 254 \<and> a' = a[j := a ! j + 1]"
proof -
  from assms(1) have l: "length a = 4" and k: "k \<le> 3"
    and b: "\<forall>j. k \<le> j \<and> j < 4 \<longrightarrow> unat (a ! j) \<le> 254"
    by (simp_all add: walkable_iff)
  from b k have "unat (a ! 3) \<le> 254" by simp
  then have n255: "a ! 3 \<noteq> 255" by auto
  with assms(2) l obtain j where s: "increment_scan a k = Inr j" and a': "a' = a[j := a ! j + 1]"
    by (auto simp add: increment_def split: sum.splits if_splits)
  from scan_Inr [OF s] l have j: "k \<le> j" "j < 4" "a ! j \<noteq> 254" by simp_all
  with b have "unat (a ! j) \<le> 254" by simp
  moreover from j have "unat (a ! j) \<noteq> 254"
    by (simp add: word_unat_eq_iff)
  ultimately have "unat (a ! j) < 254" by simp
  with j a' show ?thesis by blast
qed


lemma nth_le_sum_list: "n < length (ys :: nat list) \<Longrightarrow> ys ! n \<le> sum_list ys"
  by (rule member_le_sum_list) simp_all

lemma room_pos:
  assumes "length a = 4" and "k \<le> j" and "j < 4" and "unat (a ! j) < 254"
  shows "0 < room k a"
proof -
  from assms have "j - k < length (drop k a)" by auto
  then have "map (\<lambda>b. 254 - unat b) (drop k a) ! (j - k) \<le> room k a"
    unfolding room_def by (intro nth_le_sum_list) simp
  moreover from assms have "map (\<lambda>b. 254 - unat b) (drop k a) ! (j - k) = 254 - unat (a ! j)"
    by auto
  ultimately show ?thesis using assms by simp
qed

lemma room_update:
  assumes "length a = 4" and "k \<le> j" and "j < 4" and "unat (a ! j) < 254"
  shows "Suc (room k (a[j := a ! j + 1])) = room k a"
proof -
  let ?f = "\<lambda>b :: byte. 254 - unat b"
  from assms have jk: "j - k < length (drop k a)" by auto
  have d: "drop k (a[j := a ! j + 1]) = (drop k a)[j - k := a ! j + 1]"
    using assms by (simp add: drop_update_swap)
  have n: "drop k a ! (j - k) = a ! j"
    using assms by auto
  have "room k (a[j := a ! j + 1]) = sum_list ((map ?f (drop k a))[j - k := ?f (a ! j + 1)])"
    by (simp add: room_def d map_update)
  also have "\<dots> = sum_list (map ?f (drop k a)) + ?f (a ! j + 1) - map ?f (drop k a) ! (j - k)"
    using jk by (simp add: sum_list_update)
  also have "\<dots> = room k a + (253 - unat (a ! j)) - (254 - unat (a ! j))"
    using jk n assms by (simp add: room_def byte_succ)
  finally have "room k (a[j := a ! j + 1]) = room k a + (253 - unat (a ! j)) - (254 - unat (a ! j))" .
  moreover have "254 - unat (a ! j) \<le> room k a"
  proof -
    have "map ?f (drop k a) ! (j - k) \<le> room k a"
      unfolding room_def using jk by (intro nth_le_sum_list) simp
    with jk n show ?thesis by simp
  qed
  ultimately show ?thesis using assms by simp
qed

lemma ipval_update:
  assumes "length a = 4" and "j < 4" and "unat (a ! j) < 254"
  shows "ipval a < ipval (a[j := a ! j + 1])"
    and "j = 3 \<Longrightarrow> ipval (a[j := a ! j + 1]) = Suc (ipval a)"
proof -
  from four_bytes [OF assms(1)] obtain a0 a1 a2 a3 where a: "a = [a0, a1, a2, a3]" by blast
  from assms(2) have "j = 0 \<or> j = 1 \<or> j = 2 \<or> j = 3" by auto
  then show "ipval a < ipval (a[j := a ! j + 1])"
    using assms(3) by (auto simp add: a ipval4 byte_succ)
  show "j = 3 \<Longrightarrow> ipval (a[j := a ! j + 1]) = Suc (ipval a)"
    using assms(3) by (auto simp add: a ipval4 byte_succ)
qed

lemma walkable_update:
  assumes "walkable k a" and "k \<le> j" and "j < 4" and "unat (a ! j) < 254"
  shows "walkable k (a[j := a ! j + 1])"
proof -
  from assms(1) have l: "length a = 4" and k: "k \<le> 3"
    and b: "\<forall>i. k \<le> i \<and> i < 4 \<longrightarrow> unat (a ! i) \<le> 254"
    by (simp_all add: walkable_iff)
  have "\<forall>i. k \<le> i \<and> i < 4 \<longrightarrow> unat (a[j := a ! j + 1] ! i) \<le> 254"
  proof (intro allI impI)
    fix i assume i: "k \<le> i \<and> i < 4"
    show "unat (a[j := a ! j + 1] ! i) \<le> 254"
    proof (cases "i = j")
      case True
      with l assms show ?thesis by (simp add: byte_succ)
    next
      case False
      with b i show ?thesis by simp
    qed
  qed
  with l k show ?thesis by (simp add: walkable_iff)
qed

lemma increment_step:
  assumes "walkable k a" and "increment a k 1 = Inr a'"
  shows "walkable k a'" and "Suc (room k a') = room k a" and "ipval a < ipval a'"
    and "k = 3 \<Longrightarrow> ipval a' = Suc (ipval a)"
proof -
  from increment_shape [OF assms] obtain j
    where j: "k \<le> j" "j < 4" "unat (a ! j) < 254" and a': "a' = a[j := a ! j + 1]"
    by blast
  from assms(1) have l: "length a = 4" by (simp add: walkable_def)
  show "walkable k a'" unfolding a' by (rule walkable_update [OF assms(1) j])
  show "Suc (room k a') = room k a" unfolding a' by (rule room_update [OF l j])
  show "ipval a < ipval a'" unfolding a' by (rule ipval_update(1) [OF l j(2,3)])
  show "k = 3 \<Longrightarrow> ipval a' = Suc (ipval a)"
  proof -
    assume "k = 3"
    with j have "j = 3" by simp
    then show ?thesis unfolding a' using ipval_update(2) [OF l j(2,3)] by simp
  qed
qed

lemma increment_stuck:
  assumes "walkable k a" and "increment a k 1 = Inl p"
  shows "p = IndexOutOfRange" and "room k a = 0"
proof -
  from assms(1) have l: "length a = 4" and k: "k \<le> 3"
    and b: "\<forall>j. k \<le> j \<and> j < 4 \<longrightarrow> unat (a ! j) \<le> 254"
    by (simp_all add: walkable_iff)
  from assms(2) l have s: "increment_scan a k = Inl p"
    by (auto simp add: increment_def split: sum.splits if_splits)
  from scan_Inl [OF s] l have p: "p = IndexOutOfRange" and all: "\<forall>i. k \<le> i \<and> i < 4 \<longrightarrow> a ! i = 254"
    by simp_all
  show "p = IndexOutOfRange" by (rule p)
  have "\<forall>b \<in> set (drop k a). b = 254"
  proof
    fix b assume "b \<in> set (drop k a)"
    then obtain n where n: "n < length (drop k a)" "b = drop k a ! n"
      by (auto simp add: in_set_conv_nth)
    with l have "k \<le> k + n \<and> k + n < 4" by simp
    with all have "a ! (k + n) = 254" by blast
    with n l show "b = 254" by simp
  qed
  then have "map (\<lambda>b. 254 - unat b) (drop k a) = map (\<lambda>b. 0) (drop k a)"
    by (intro map_cong) auto
  then show "room k a = 0" by (simp add: room_def)
qed

subsection \<open>The loop of \<open>analyze\<close>\<close>

text \<open>
  The loop starts \<open>min n (room k a)\<close> probes, where \<open>n\<close> is the number of rounds the
  bound asks for: it ends in a panic exactly when \<open>n\<close> is more than the room. The
  addresses it starts probes for increase strictly.
\<close>

lemma hostLoop_walk:
  assumes "walkable k a" and "hostLoop k bound i a acc = (L, r)"
  shows "\<exists>new. L = acc @ new \<and> length new = min (nat (bound - i)) (room k a) \<and>
           (\<forall>b \<in> set new. walkable k b \<and> ipval a < ipval b \<and>
                (k = 3 \<longrightarrow> ipval b \<le> ipval a + length new)) \<and>
           sorted_wrt (\<lambda>x y. ipval x < ipval y) new \<and>
           (if nat (bound - i) \<le> room k a then (\<exists>e. r = Inr e) else r = Inl IndexOutOfRange)"
  using assms
proof (induction k bound i a acc arbitrary: L r rule: hostLoop.induct)
  case (1 k bound i a acc)
  show ?case
  proof (cases "i < bound")
    case False
    with "1.prems" have "L = acc" "r = Inr a" by (simp_all add: hostLoop.simps)
    with False show ?thesis by simp
  next
    case True
    show ?thesis
    proof (cases "increment a k 1")
      case (Inl p)
      from increment_stuck [OF "1.prems"(1) Inl] have p: "p = IndexOutOfRange" and z: "room k a = 0"
        by simp_all
      from "1.prems"(2) True Inl have "L = acc" "r = Inl p" by (simp_all add: hostLoop.simps)
      with p z True show ?thesis by simp
    next
      case (Inr a')
      note st = increment_step [OF "1.prems"(1) Inr]
      from "1.prems"(2) True Inr have h: "hostLoop k bound (i + 1) a' (acc @ [a']) = (L, r)"
        by (simp add: hostLoop.simps)
      from "1.IH" [OF True Inr st(1) h] obtain new
        where L: "L = (acc @ [a']) @ new"
          and len: "length new = min (nat (bound - (i + 1))) (room k a')"
          and mem: "\<forall>b \<in> set new. walkable k b \<and> ipval a' < ipval b \<and>
                       (k = 3 \<longrightarrow> ipval b \<le> ipval a' + length new)"
          and srt: "sorted_wrt (\<lambda>x y. ipval x < ipval y) new"
          and res: "if nat (bound - (i + 1)) \<le> room k a' then (\<exists>e. r = Inr e)
                    else r = Inl IndexOutOfRange"
        by blast
      have n: "nat (bound - i) = Suc (nat (bound - (i + 1)))"
        using True by simp
      have "L = acc @ (a' # new)" using L by simp
      moreover have "length (a' # new) = min (nat (bound - i)) (room k a)"
        using len n st(2) by simp
      moreover have "\<forall>b \<in> set (a' # new). walkable k b \<and> ipval a < ipval b \<and>
                       (k = 3 \<longrightarrow> ipval b \<le> ipval a + length (a' # new))"
      proof
        fix b assume "b \<in> set (a' # new)"
        then consider "b = a'" | "b \<in> set new" by auto
        then show "walkable k b \<and> ipval a < ipval b \<and>
                   (k = 3 \<longrightarrow> ipval b \<le> ipval a + length (a' # new))"
        proof cases
          case 1
          with st show ?thesis by simp
        next
          case 2
          with mem have "walkable k b" "ipval a' < ipval b"
            "k = 3 \<longrightarrow> ipval b \<le> ipval a' + length new" by simp_all
          with st(3,4) show ?thesis by auto
        qed
      qed
      moreover have "sorted_wrt (\<lambda>x y. ipval x < ipval y) (a' # new)"
        using srt mem by simp
      moreover have "if nat (bound - i) \<le> room k a then (\<exists>e. r = Inr e)
                     else r = Inl IndexOutOfRange"
        using res n st(2) by (simp split: if_splits)
      ultimately show ?thesis by blast
    qed
  qed
qed

subsection \<open>The networks of IPv4 strings\<close>

text \<open>
  The 33 masks of IPv4, looked at one by one: what \<open>Size\<close> reads from them, and their
  bytes from the byte of the prefix's end on.
\<close>

lemma mask_table:
  "\<forall>p \<in> set [0..<33]. Size (CIDRMask p 32) = (p, 32) \<and> length (CIDRMask p 32) = 4 \<and>
      (\<forall>j \<in> set [p div 8..<4]. unat (CIDRMask p 32 ! j) \<le> 254) \<and>
      (p \<le> 23 \<longrightarrow> CIDRMask p 32 ! 3 = 0) \<and>
      (24 \<le> p \<longrightarrow> take 3 (CIDRMask p 32) = [255, 255, 255] \<and> unat (CIDRMask p 32 ! 3) + 2 ^ (32 - p) = 256)"
  by code_simp

lemma Size_le: "fst (Size m) \<le> snd (Size m)"
proof -
  have "length (takeWhile id (maskBits m)) \<le> length (maskBits m)"
    by (rule length_takeWhile_le)
  moreover have "length (maskBits m) = 8 * length m"
    by (induction m) (simp_all add: maskBits_def bitsOf_def)
  ultimately show ?thesis by (simp add: Size_def Let_def)
qed

lemma unat_not_byte: "unat (NOT (m :: byte)) = 255 - unat m"
proof -
  have "NOT m = 255 - m"
    by (simp add: not_eq_complement)
  moreover have "m \<le> 255"
    using unsigned_less [of m, where ?'a = nat] by (simp add: word_le_nat_alt)
  ultimately show ?thesis
    by (simp add: unat_sub)
qed

lemma and_not_zero: "(a :: byte) AND m = a \<Longrightarrow> a AND NOT m = 0"
  by (metis and.assoc and_zero_eq word_and_not)

lemma and_le_mask: "(a :: byte) AND m = a \<Longrightarrow> unat a \<le> unat m"
  by (metis word_and_le1 word_le_nat_alt)

lemma or_not_mask:
  assumes "(a :: byte) AND m = a"
  shows "unat (a OR NOT m) = unat a + (255 - unat m)"
proof -
  have "a OR NOT m = a + NOT m"
    using and_not_zero [OF assms] word_plus_and_or [of a "NOT m"] by simp
  moreover have "unat a + unat (NOT m) < 2 ^ LENGTH(8)"
    using and_le_mask [OF assms] unsigned_less [of m, where ?'a = nat] by (simp add: unat_not_byte)
  then have "unat (a + NOT m) = unat a + unat (NOT m)"
    by (simp only: unat_add_lem)
  ultimately show ?thesis by (simp add: unat_not_byte)
qed

lemma mask_facts:
  assumes "p \<le> 32"
  shows "Size (CIDRMask p 32) = (p, 32)"
    and "length (CIDRMask p 32) = 4"
    and "\<And>j. p div 8 \<le> j \<Longrightarrow> j < 4 \<Longrightarrow> unat (CIDRMask p 32 ! j) \<le> 254"
    and "p \<le> 23 \<Longrightarrow> CIDRMask p 32 ! 3 = 0"
    and "24 \<le> p \<Longrightarrow> take 3 (CIDRMask p 32) = [255, 255, 255]"
    and "24 \<le> p \<Longrightarrow> unat (CIDRMask p 32 ! 3) + 2 ^ (32 - p) = 256"
proof -
  from assms have p: "p \<in> set [0..<33]" by simp
  note t = mask_table [rule_format, OF p]
  from t show "Size (CIDRMask p 32) = (p, 32)" by blast
  from t show "length (CIDRMask p 32) = 4" by blast
  from t show "\<And>j. p div 8 \<le> j \<Longrightarrow> j < 4 \<Longrightarrow> unat (CIDRMask p 32 ! j) \<le> 254" by simp
  from t show "p \<le> 23 \<Longrightarrow> CIDRMask p 32 ! 3 = 0" by blast
  from t show "24 \<le> p \<Longrightarrow> take 3 (CIDRMask p 32) = [255, 255, 255]" by blast
  from t show "24 \<le> p \<Longrightarrow> unat (CIDRMask p 32 ! 3) + 2 ^ (32 - p) = 256" by blast
qed

lemma valid4D:
  assumes "valid4 network"
  shows "prefixBits network \<le> 32"
    and "Size (Mask network) = (prefixBits network, 32)"
    and "Mask network = CIDRMask (prefixBits network) 32"
    and "length (IP network) = 4"
    and "hostBits network = 32 - prefixBits network"
    and "\<And>j. j < 4 \<Longrightarrow> IP network ! j AND Mask network ! j = IP network ! j"
proof -
  from assms have s: "snd (Size (Mask network)) = 32"
    and m: "Mask network = CIDRMask (prefixBits network) 32"
    and l: "length (IP network) = 4"
    and a: "IP_Mask (IP network) (Mask network) = IP network"
    by (simp_all add: valid4_def prefixBits_def)
  from Size_le [of "Mask network"] s show p: "prefixBits network \<le> 32"
    by (simp add: prefixBits_def)
  from s show "Size (Mask network) = (prefixBits network, 32)"
    by (simp add: prefixBits_def prod_eq_iff)
  show "Mask network = CIDRMask (prefixBits network) 32" by (rule m)
  show "length (IP network) = 4" by (rule l)
  from s show "hostBits network = 32 - prefixBits network"
    by (simp add: hostBits_def prefixBits_def)
  fix j :: nat assume j: "j < 4"
  have lm: "length (Mask network) = 4"
    using mask_facts(2) [OF p] m by simp
  have "IP_Mask (IP network) (Mask network) ! j = IP network ! j AND Mask network ! j"
    using j l lm by (simp add: IP_Mask_def)
  with a show "IP network ! j AND Mask network ! j = IP network ! j" by simp
qed

lemma valid4_walkable:
  assumes "valid4 network" and "prefixBits network \<le> 31"
  shows "walkable (prefixBits network div 8) (IP network)"
proof -
  note v = valid4D [OF assms(1)]
  have "\<forall>j. prefixBits network div 8 \<le> j \<and> j < 4 \<longrightarrow> unat (IP network ! j) \<le> 254"
  proof (intro allI impI)
    fix j assume j: "prefixBits network div 8 \<le> j \<and> j < 4"
    then have "unat (IP network ! j) \<le> unat (Mask network ! j)"
      using v(6) [of j] by (intro and_le_mask) simp
    also have "\<dots> \<le> 254"
      using mask_facts(3) [OF v(1), of j] j v(3) by simp
    finally show "unat (IP network ! j) \<le> 254" .
  qed
  moreover from assms(2) have "prefixBits network div 8 \<le> 3" by simp
  ultimately show ?thesis using v(4) by (simp add: walkable_iff)
qed

lemma room_le: "room k a \<le> 254 * length (drop k a)"
proof -
  have "sum_list (map (\<lambda>b :: byte. 254 - unat b) xs) \<le> 254 * length xs" for xs
    by (induction xs) auto
  then show ?thesis by (simp only: room_def)
qed

lemma room_table:
  assumes "p \<le> 23"
  shows "254 * (4 - p div 8) < (2 :: nat) ^ (32 - p) - 2"
proof -
  consider "p \<le> 15" | "16 \<le> p" by linarith
  then show ?thesis
  proof cases
    case 1
    then have "(2 :: nat) ^ 17 \<le> 2 ^ (32 - p)"
      by (intro power_increasing) simp_all
    moreover have "254 * (4 - p div 8) \<le> 254 * 4"
      by simp
    ultimately show ?thesis by simp
  next
    case 2
    with assms have "p div 8 = 2" by simp
    moreover from assms have "(2 :: nat) ^ 9 \<le> 2 ^ (32 - p)"
      by (intro power_increasing) simp_all
    ultimately show ?thesis by simp
  qed
qed

lemma valid4_room_small:
  assumes "valid4 network" and "prefixBits network \<le> 23"
  shows "room (prefixBits network div 8) (IP network) < 2 ^ hostBits network - 2"
proof -
  note v = valid4D [OF assms(1)]
  from room_table [OF assms(2)]
  have "254 * (4 - prefixBits network div 8) < (2 :: nat) ^ (32 - prefixBits network) - 2" .
  moreover have "room (prefixBits network div 8) (IP network) \<le> 254 * (4 - prefixBits network div 8)"
    using room_le [of "prefixBits network div 8" "IP network"] v(4) by simp
  ultimately show ?thesis using v(5) by simp
qed

lemma valid4_room_large:
  assumes "valid4 network" and "24 \<le> prefixBits network"
  shows "2 ^ hostBits network - 2 \<le> room 3 (IP network)"
proof -
  note v = valid4D [OF assms(1)]
  from four_bytes [OF v(4)] obtain a0 a1 a2 a3 where a: "IP network = [a0, a1, a2, a3]" by blast
  have "unat a3 \<le> unat (Mask network ! 3)"
    using v(6) [of 3] a by (intro and_le_mask) simp
  moreover have "unat (Mask network ! 3) + 2 ^ (32 - prefixBits network) = 256"
    using mask_facts(6) [OF v(1) assms(2)] v(3) by simp
  moreover have "room 3 (IP network) = 254 - unat a3"
    by (simp add: room_def a)
  ultimately show ?thesis using v(5) by simp
qed

subsection \<open>\<open>analyze\<close> on the network of an IPv4 string\<close>

text \<open>
  With at most 32 host bits nothing wraps around: the loop's bound is \<open>2 ^ h - 1\<close>.
  The goroutines leave one cell each, and an entry under it unless the probe erred.
\<close>

lemma int64_id: "- (2 ^ 63) \<le> x \<Longrightarrow> x < 2 ^ 63 \<Longrightarrow> int64 x = x"
  by (simp add: int64_def signed_take_bit_int_eq_self)

lemma bound_valid4:
  assumes "h \<le> 32"
  shows "int64 (shl1 h - 2) = 2 ^ h - 2" and "int64 (int64 (shl1 h - 2) + 1) = 2 ^ h - 1"
    and "nat (2 ^ h - 1 - (1 :: int)) = 2 ^ h - 2"
proof -
  from assms have "(2 :: int) ^ h \<le> 2 ^ 32" by (intro power_increasing) simp_all
  then have b: "(2 :: int) ^ h \<le> 4294967296" by simp
  have p: "(1 :: int) \<le> 2 ^ h" by simp
  have small: "int64 x = x" if "- 2 \<le> x" and "x \<le> 4294967296" for x
    using that by (intro int64_id) simp_all
  from assms have s: "shl1 h = 2 ^ h"
    using small [of "2 ^ h"] b p by (simp add: shl1_def)
  show m: "int64 (shl1 h - 2) = 2 ^ h - 2"
    unfolding s using b p by (intro small) simp_all
  show "int64 (int64 (shl1 h - 2) + 1) = 2 ^ h - 1"
    unfolding m using small [of "2 ^ h - 1"] b p by simp
  have "nat (2 ^ h - 1 - (1 :: int)) = nat (2 ^ h) - 2"
    by (simp add: nat_diff_distrib')
  then show "nat (2 ^ h - 1 - (1 :: int)) = 2 ^ h - 2"
    by (simp add: nat_power_eq)
qed

lemma analyze_valid4:
  assumes "ParseCIDR s = Some network" and "valid4 network"
  shows "analyze ParseCIDR Run w s =
     (case hostLoop (prefixBits network div 8) (2 ^ hostBits network - 1) 1 (IP network) [] of
        (started, Inl p) \<Rightarrow> (Inl p, w\<lparr>probes := probes w @ started\<rparr>)
      | (started, Inr _) \<Rightarrow>
          (case fold (task Run) started (cells w, Map.empty) of
             (cs, addressPool) \<Rightarrow> (Inr addressPool, \<lparr>cells = cs, probes = probes w @ started\<rparr>)))"
proof -
  note v = valid4D [OF assms(2)]
  have h: "hostBits network \<le> 32" using v(5) by simp
  have "int64 (int64 (shl1 (32 - prefixBits network) - 2) + 1) = 2 ^ hostBits network - 1"
    using bound_valid4(2) [OF h] v(5) by simp
  then show ?thesis
    using assms(1) v(2)
    by (simp add: analyze_def v(5))
qed

lemma fold_task:
  "fold (task Run) xs (cs, pool) =
     (cs @ xs,
      \<lambda>r. if length cs \<le> r \<and> r < length cs + length xs
           then (case pingAddress Run (xs ! (r - length cs)) of Inl err \<Rightarrow> pool r | Inr used \<Rightarrow> Some used)
           else pool r)"
proof (induction xs arbitrary: cs pool)
  case Nil
  show ?case by (auto simp add: fun_eq_iff)
next
  case (Cons x xs)
  show ?case
  proof (cases "pingAddress Run x")
    case (Inl err)
    then have "fold (task Run) (x # xs) (cs, pool) = fold (task Run) xs (cs @ [x], pool)"
      by (simp add: task_def)
    also note Cons.IH
    finally show ?thesis
      using Inl by (auto simp add: fun_eq_iff nth_Cons' split: sum.splits)
  next
    case (Inr used)
    then have "fold (task Run) (x # xs) (cs, pool) = fold (task Run) xs (cs @ [x], pool(length cs \<mapsto> used))"
      by (simp add: task_def)
    also note Cons.IH
    finally show ?thesis
      using Inr by (auto simp add: fun_eq_iff nth_Cons' split: sum.splits)
  qed
qed

text \<open>
  The loop on such a network. With a prefix of 24 bits or more only the last byte
  moves, and it has room for all \<open>2 ^ h - 2\<close> rounds. With a shorter prefix the bytes
  from index \<open>prefix div 8\<close> on fill up to 254 one after the other, long before the rounds
  are over: the loop ends in the panic.
\<close>

lemma sorted_ipval_distinct: "sorted_wrt (\<lambda>x y. ipval x < ipval y) xs \<Longrightarrow> distinct xs"
  by (induction xs) auto

lemma valid4_loop:
  assumes "valid4 network"
    and "hostLoop (prefixBits network div 8) (2 ^ hostBits network - 1) 1 (IP network) [] = (L, r)"
  shows "length L = (if 24 \<le> prefixBits network then 2 ^ hostBits network - 2
                     else room (prefixBits network div 8) (IP network))"
    and "24 \<le> prefixBits network \<Longrightarrow> \<exists>e. r = Inr e"
    and "prefixBits network \<le> 23 \<Longrightarrow> r = Inl IndexOutOfRange"
    and "\<forall>b \<in> set L. length b = 4 \<and> unat (b ! 3) \<le> 254 \<and> ipval (IP network) < ipval b"
    and "24 \<le> prefixBits network \<Longrightarrow>
           \<forall>b \<in> set L. ipval b + 2 \<le> ipval (IP network) + 2 ^ hostBits network"
    and "distinct L"
proof -
  note v = valid4D [OF assms(1)]
  let ?p = "prefixBits network" and ?h = "hostBits network" and ?a = "IP network"
  have h: "?h \<le> 32" using v(5) by simp
  let ?all = "(length L = (if 24 \<le> ?p then 2 ^ ?h - 2 else room (?p div 8) ?a)) \<and>
      (24 \<le> ?p \<longrightarrow> (\<exists>e. r = Inr e)) \<and> (?p \<le> 23 \<longrightarrow> r = Inl IndexOutOfRange) \<and>
      (\<forall>b \<in> set L. length b = 4 \<and> unat (b ! 3) \<le> 254 \<and> ipval ?a < ipval b) \<and>
      (24 \<le> ?p \<longrightarrow> (\<forall>b \<in> set L. ipval b + 2 \<le> ipval ?a + 2 ^ ?h)) \<and> distinct L"
  have all: ?all
  proof (cases "?p = 32")
    case True
    with v(5) have "?h = 0" by simp
    with assms(2) have "L = []" "r = Inr ?a" by (simp_all add: hostLoop.simps)
    with True \<open>?h = 0\<close> show ?all
      by simp
  next
    case False
    with v(1) have p31: "?p \<le> 31" by simp
    note w = valid4_walkable [OF assms(1) p31]
    from hostLoop_walk [OF w assms(2)] obtain new
      where L: "L = new"
        and len: "length new = min (nat (2 ^ ?h - 1 - 1)) (room (?p div 8) ?a)"
        and mem: "\<forall>b \<in> set new. walkable (?p div 8) b \<and> ipval ?a < ipval b \<and>
                     (?p div 8 = 3 \<longrightarrow> ipval b \<le> ipval ?a + length new)"
        and srt: "sorted_wrt (\<lambda>x y. ipval x < ipval y) new"
        and res: "if nat (2 ^ ?h - 1 - 1) \<le> room (?p div 8) ?a then (\<exists>e. r = Inr e)
                  else r = Inl IndexOutOfRange"
      by auto
    note n = bound_valid4(3) [OF h]
    have shape: "\<forall>b \<in> set L. length b = 4 \<and> unat (b ! 3) \<le> 254 \<and> ipval ?a < ipval b"
      using mem L by (auto simp add: walkable_iff)
    have d: "distinct L" using srt L by (simp add: sorted_ipval_distinct)
    show ?all
    proof (cases "24 \<le> ?p")
      case True
      with p31 have k: "?p div 8 = 3" by simp
      from valid4_room_large [OF assms(1) True] have big: "2 ^ ?h - 2 \<le> room 3 ?a" .
      from True p31 v(5) have "1 \<le> ?h" by simp
      then have "(2 :: nat) ^ 1 \<le> 2 ^ ?h" by (intro power_increasing) simp_all
      then have two: "(2 :: nat) \<le> 2 ^ ?h" by simp
      have lenL: "length L = 2 ^ ?h - 2" using len n k big L by simp
      have "\<exists>e. r = Inr e" using res n k big by simp
      moreover have "\<forall>b \<in> set L. ipval b + 2 \<le> ipval ?a + 2 ^ ?h"
      proof
        fix b assume "b \<in> set L"
        with mem L k have "ipval b \<le> ipval ?a + length L" by simp
        with lenL two show "ipval b + 2 \<le> ipval ?a + 2 ^ ?h" by simp
      qed
      ultimately show ?thesis using True lenL shape d by simp
    next
      case f: False
      then have p23: "?p \<le> 23" by simp
      from valid4_room_small [OF assms(1) p23] have small: "room (?p div 8) ?a < 2 ^ ?h - 2" .
      have "length L = room (?p div 8) ?a" using len n small L by simp
      moreover have "r = Inl IndexOutOfRange" using res n small by simp
      ultimately show ?thesis using f shape d by simp
    qed
  qed
  from all show "length L = (if 24 \<le> ?p then 2 ^ ?h - 2 else room (?p div 8) ?a)" by blast
  from all show "24 \<le> ?p \<Longrightarrow> \<exists>e. r = Inr e" by blast
  from all show "?p \<le> 23 \<Longrightarrow> r = Inl IndexOutOfRange" by blast
  from all show "\<forall>b \<in> set L. length b = 4 \<and> unat (b ! 3) \<le> 254 \<and> ipval ?a < ipval b" by blast
  from all show "24 \<le> ?p \<Longrightarrow> \<forall>b \<in> set L. ipval b + 2 \<le> ipval ?a + 2 ^ ?h" by blast
  from all show "distinct L" by blast
qed

text \<open>
  The two outcomes of \<open>analyze\<close> on the network of an IPv4 string: the panic for a
  prefix of at most 23 bits, and for a longer one the pool with an entry under the
  cell of every goroutine whose probe did not err.
\<close>

lemma analyze_panics:
  assumes "ParseCIDR s = Some network" and "valid4 network" and "prefixBits network \<le> 23"
  shows "\<exists>L. analyze ParseCIDR Run w s = (Inl IndexOutOfRange, w\<lparr>probes := probes w @ L\<rparr>) \<and>
             length L = room (prefixBits network div 8) (IP network) \<and>
             (\<forall>b \<in> set L. length b = 4 \<and> unat (b ! 3) \<le> 254 \<and> ipval (IP network) < ipval b)"
proof -
  obtain L r
    where l: "hostLoop (prefixBits network div 8) (2 ^ hostBits network - 1) 1 (IP network) [] = (L, r)"
    by (cases "hostLoop (prefixBits network div 8) (2 ^ hostBits network - 1) 1 (IP network) []")
  note f = valid4_loop [OF assms(2) l]
  from f(3) [OF assms(3)] have r: "r = Inl IndexOutOfRange" .
  have "analyze ParseCIDR Run w s = (Inl IndexOutOfRange, w\<lparr>probes := probes w @ L\<rparr>)"
    by (simp add: analyze_valid4 [of ParseCIDR s, OF assms(1,2)] l r)
  moreover from f(1) assms(3) have "length L = room (prefixBits network div 8) (IP network)"
    by simp
  ultimately show ?thesis using f(4) by blast
qed

lemma analyze_returns:
  assumes "ParseCIDR s = Some network" and "valid4 network" and "24 \<le> prefixBits network"
  shows "\<exists>L. analyze ParseCIDR Run w s =
               (Inr (\<lambda>r. if length (cells w) \<le> r \<and> r < length (cells w) + length L
                          then (case pingAddress Run (L ! (r - length (cells w))) of
                                  Inl err \<Rightarrow> None | Inr used \<Rightarrow> Some used)
                          else None),
                \<lparr>cells = cells w @ L, probes = probes w @ L\<rparr>) \<and>
             length L = 2 ^ hostBits network - 2 \<and> distinct L \<and>
             (\<forall>b \<in> set L. length b = 4 \<and> ipval (IP network) < ipval b \<and>
                  ipval b + 2 \<le> ipval (IP network) + 2 ^ hostBits network)"
proof -
  obtain L r
    where l: "hostLoop (prefixBits network div 8) (2 ^ hostBits network - 1) 1 (IP network) [] = (L, r)"
    by (cases "hostLoop (prefixBits network div 8) (2 ^ hostBits network - 1) 1 (IP network) []")
  note f = valid4_loop [OF assms(2) l]
  from f(2) [OF assms(3)] obtain e where r: "r = Inr e" by blast
  have "analyze ParseCIDR Run w s =
               (Inr (\<lambda>r. if length (cells w) \<le> r \<and> r < length (cells w) + length L
                          then (case pingAddress Run (L ! (r - length (cells w))) of
                                  Inl err \<Rightarrow> None | Inr used \<Rightarrow> Some used)
                          else None),
                \<lparr>cells = cells w @ L, probes = probes w @ L\<rparr>)"
    by (simp add: analyze_valid4 [of ParseCIDR s, OF assms(1,2)] l r fold_task)
  moreover from f(1) assms(3) have "length L = 2 ^ hostBits network - 2"
    by simp
  moreover from f(4) f(5) [OF assms(3)]
  have "\<forall>b \<in> set L. length b = 4 \<and> ipval (IP network) < ipval b \<and>
                  ipval b + 2 \<le> ipval (IP network) + 2 ^ hostBits network"
    by blast
  ultimately show ?thesis using f(6) by blast
qed

text \<open>The broadcast address: its last byte, and its distance from the network's address.\<close>

lemma broadcast_small:
  assumes "valid4 network" and "prefixBits network \<le> 23"
  shows "broadcast network ! 3 = 255"
proof -
  note v = valid4D [OF assms(1)]
  have lm: "length (Mask network) = 4"
    using mask_facts(2) [OF v(1)] v(3) by simp
  have "Mask network ! 3 = 0"
    using mask_facts(4) [OF v(1) assms(2)] v(3) by simp
  then show ?thesis
    using v(4) lm by (simp add: broadcast_def)
qed

lemma broadcast_large:
  assumes "valid4 network" and "24 \<le> prefixBits network"
  shows "ipval (broadcast network) + 1 = ipval (IP network) + 2 ^ hostBits network"
proof -
  note v = valid4D [OF assms(1)]
  from four_bytes [OF v(4)] obtain a0 a1 a2 a3 where a: "IP network = [a0, a1, a2, a3]" by blast
  have lm: "length (Mask network) = 4"
    using mask_facts(2) [OF v(1)] v(3) by simp
  from four_bytes [OF lm] obtain m0 m1 m2 m3 where m: "Mask network = [m0, m1, m2, m3]" by blast
  have "take 3 (Mask network) = [255, 255, 255]"
    using mask_facts(5) [OF v(1) assms(2)] v(3) by simp
  with m have m012: "m0 = 255" "m1 = 255" "m2 = 255" by simp_all
  have "unat (Mask network ! 3) + 2 ^ (32 - prefixBits network) = 256"
    using mask_facts(6) [OF v(1) assms(2)] v(3) by simp
  then have m3: "unat m3 + 2 ^ hostBits network = 256"
    by (simp add: m v(5))
  have "a3 AND m3 = a3" using v(6) [of 3] a m by simp
  then have o: "unat (a3 OR NOT m3) = unat a3 + (255 - unat m3)" by (rule or_not_mask)
  have n: "NOT (255 :: byte) = 0" by simp
  have "broadcast network = [a0 OR NOT m0, a1 OR NOT m1, a2 OR NOT m2, a3 OR NOT m3]"
    by (simp add: broadcast_def a m)
  then have "broadcast network = [a0, a1, a2, a3 OR NOT m3]"
    unfolding m012 n by simp
  then have "ipval (broadcast network) = ipval (IP network) + (255 - unat m3)"
    by (simp add: a ipval4 o)
  moreover have "0 < (2 :: nat) ^ hostBits network" by simp
  ultimately show ?thesis using m3 by linarith
qed

text \<open>The dotted-quad parser gives such networks only.\<close>

lemma parseIPv4_length: "parseIPv4 s = Some ip \<Longrightarrow> length ip = 4"
  by (auto simp add: parseIPv4_def split: list.splits option.splits)

lemma ParseCIDR4_valid4:
  assumes "ParseCIDR4 s = Some network"
  shows "valid4 network"
proof -
  from assms obtain ip n
    where p: "parseIPv4 (takeWhile (\<lambda>c. c \<noteq> CHR ''/'') s) = Some ip" and n: "n \<le> 32"
      and net: "network = \<lparr>IP = IP_Mask ip (CIDRMask n 32), Mask = CIDRMask n 32\<rparr>"
    by (auto simp add: ParseCIDR4_def Let_def split: if_splits option.splits prod.splits)
  from p have ip: "length ip = 4" by (rule parseIPv4_length)
  note m = mask_facts(1,2) [OF n]
  from four_bytes [OF ip] obtain a0 a1 a2 a3 where a: "ip = [a0, a1, a2, a3]" by blast
  from four_bytes [OF m(2)] obtain m0 m1 m2 m3 where mm: "CIDRMask n 32 = [m0, m1, m2, m3]" by blast
  show ?thesis
    unfolding valid4_def net using m(1) by (simp add: mm a IP_Mask_def)
qed

subsection \<open>The claims about \<open>increment\<close>\<close>

text \<open>
  C3, as the code has it. Started at index \<open>k\<close> of a 4-byte address, \<open>increment\<close>
  leaves the address alone when \<open>k\<close> is 3 and byte 3 is 255; in every other case it
  walks right from \<open>k\<close> over the bytes that are 254 and adds 1 to the first byte that is
  not 254, when there is one among the four.
\<close>

theorem increment_walk:
  assumes "length a = 4" and "k \<le> 3"
  shows "(k = 3 \<and> a ! 3 = 255 \<longrightarrow> increment a k 1 = Inr a) \<and>
         (\<forall>j. \<not> (k = 3 \<and> a ! 3 = 255) \<and> k \<le> j \<and> j \<le> 3 \<and> a ! j \<noteq> 254 \<and>
              (\<forall>i. k \<le> i \<and> i < j \<longrightarrow> a ! i = 254)
              \<longrightarrow> increment a k 1 = Inr (a[j := a ! j + 1]))"
proof (intro conjI allI impI)
  assume "k = 3 \<and> a ! 3 = 255"
  with assms show "increment a k 1 = Inr a"
    by (simp add: increment_def)
next
  fix j
  assume h: "\<not> (k = 3 \<and> a ! 3 = 255) \<and> k \<le> j \<and> j \<le> 3 \<and> a ! j \<noteq> 254 \<and>
             (\<forall>i. k \<le> i \<and> i < j \<longrightarrow> a ! i = 254)"
  with assms have "increment_scan a k = Inr j"
    by (intro scan_found) auto
  with h assms show "increment a k 1 = Inr (a[j := a ! j + 1])"
    by (auto simp add: increment_def)
qed

theorem increment_walk_witness:
  "length [10, 0, 254, 7 :: byte] = 4 \<and> (2 :: nat) \<le> 3 \<and>
   increment [10, 0, 254, 7] 2 1 = Inr [10, 0, 254, 8] \<and>
   increment [10, 0, 0, 255] 3 1 = Inr [10, 0, 0, 255]"
proof -
  have a: "length [10, 0, 254, 7 :: byte] = 4" and b: "length [10, 0, 0, 255 :: byte] = 4"
    by simp_all
  have k: "(2 :: nat) \<le> 3" and k3: "(3 :: nat) \<le> 3"
    by simp_all
  have "\<forall>i. (2 :: nat) \<le> i \<and> i < 3 \<longrightarrow> [10, 0, 254, 7 :: byte] ! i = 254"
  proof (intro allI impI)
    fix i :: nat
    assume "2 \<le> i \<and> i < 3"
    then have "i = 2" by simp
    then show "[10, 0, 254, 7 :: byte] ! i = 254" by simp
  qed
  with increment_walk [OF a k, THEN conjunct2, rule_format, of 3]
  have "increment [10, 0, 254, 7] 2 1 = Inr [10, 0, 254, 8]"
    by simp
  moreover from increment_walk [OF b k3] have "increment [10, 0, 0, 255] 3 1 = Inr [10, 0, 0, 255]"
    by simp
  ultimately show ?thesis by simp
qed

text \<open>
  C3 as the specification words it fails: with the last byte at 255 and the walk started
  at index 2, byte 2 is incremented.
\<close>

theorem increment_last_byte_255_counterexample:
  "[10, 0, 0, 255 :: byte] ! 3 = 255 \<and>
   increment [10, 0, 0, 255] 2 1 = Inr [10, 0, 1, 255] \<and>
   increment [10, 0, 0, 255] 2 1 \<noteq> Inr [10, 0, 0, 255]"
  by (simp add: increment_def)

subsection \<open>\<open>pingAddress\<close>\<close>

text \<open>
  C8. \<open>pingAddress\<close> runs the pinger of the address with a count of 2 packets and a
  timeout of 5 seconds. When the run returns an error, so does the probe, with no
  verdict; when it returns none, the verdict is whether a reply was received.
\<close>

theorem pingAddress_contract:
  "5 * Second = 5000000000 \<and>
   (\<forall>err p. Run \<lparr>addr = IP_String address, Count = 2, Timeout = 5 * Second, PacketsRecv = 0\<rparr>
             = (Some err, p) \<longrightarrow> pingAddress Run address = Inl err) \<and>
   (\<forall>p. Run \<lparr>addr = IP_String address, Count = 2, Timeout = 5 * Second, PacketsRecv = 0\<rparr>
             = (None, p) \<longrightarrow> pingAddress Run address = Inr (1 \<le> PacketsRecv p))"
  by (auto simp add: pingAddress_def New_def Second_def)

theorem pingAddress_contract_witness:
  "pingAddress (\<lambda>p. if addr p = ''10.0.0.1'' \<and> Count p = 2 \<and> Timeout p = 5000000000
                       then (None, p\<lparr>PacketsRecv := 1\<rparr>) else (Some ''no route'', p))
     [10, 0, 0, 1] = Inr True \<and>
   pingAddress (\<lambda>p. if addr p = ''10.0.0.1'' \<and> Count p = 2 \<and> Timeout p = 5000000000
                       then (None, p) else (Some ''no route'', p))
     [10, 0, 0, 1] = Inr False \<and>
   pingAddress (\<lambda>p. (Some ''socket: permission denied'', p)) [10, 0, 0, 1]
     = Inl ''socket: permission denied''"
proof -
  have s: "IP_String [10, 0, 0, 1] = ''10.0.0.1''"
    by code_simp
  show ?thesis
    using pingAddress_contract
            [of "\<lambda>p. if addr p = ''10.0.0.1'' \<and> Count p = 2 \<and> Timeout p = 5000000000
                      then (None, p\<lparr>PacketsRecv := 1\<rparr>) else (Some ''no route'', p)"
                "[10, 0, 0, 1]"]
          pingAddress_contract
            [of "\<lambda>p. if addr p = ''10.0.0.1'' \<and> Count p = 2 \<and> Timeout p = 5000000000
                      then (None, p) else (Some ''no route'', p)"
                "[10, 0, 0, 1]"]
          pingAddress_contract
            [of "\<lambda>p. (Some ''socket: permission denied'', p)" "[10, 0, 0, 1]"]
    by (simp add: s Second_def)
qed

subsection \<open>An invalid string\<close>

text \<open>
  C7. When the string does not parse, \<open>analyze\<close> returns the error "Invalid address"
  and no pool; nothing has been probed and nothing allocated.
\<close>

theorem analyze_invalid:
  "ParseCIDR s = None \<Longrightarrow>
   analyze ParseCIDR Run w s = (Inl (InvalidAddress (''Invalid address: '' @ s)), w)"
  by (simp add: analyze_def)

theorem analyze_invalid_witness:
  "ParseCIDR4 ''not-an-address'' = None \<and>
   analyze ParseCIDR4 (\<lambda>p. (None, p\<lparr>PacketsRecv := 1\<rparr>)) \<lparr>cells = [], probes = []\<rparr>
     ''not-an-address''
   = (Inl (InvalidAddress ''Invalid address: not-an-address''), \<lparr>cells = [], probes = []\<rparr>)"
proof -
  have h: "ParseCIDR4 ''not-an-address'' = None"
    by (simp add: ParseCIDR4_def)
  from analyze_invalid [of ParseCIDR4 "''not-an-address''", OF h] h show ?thesis
    by simp
qed

subsection \<open>Concrete networks\<close>

lemmas parse_simps = ParseCIDR4_def parseIPv4_def parseField_def isDigit_def dtoi_def digitVal_def
  big_def IP_Mask_def

lemma masks_used:
  "CIDRMask 16 32 = [255, 255, 0, 0]" "CIDRMask 22 32 = [255, 255, 252, 0]"
  "CIDRMask 23 32 = [255, 255, 254, 0]" "CIDRMask 30 32 = [255, 255, 255, 252]"
  "CIDRMask 31 32 = [255, 255, 255, 254]" "CIDRMask 32 32 = [255, 255, 255, 255]"
  by code_simp+

lemma sizes_used:
  "Size [255, 255, 0, 0] = (16, 32)" "Size [255, 255, 252, 0] = (22, 32)"
  "Size [255, 255, 254, 0] = (23, 32)" "Size [255, 255, 255, 252] = (30, 32)"
  "Size [255, 255, 255, 254] = (31, 32)" "Size [255, 255, 255, 255] = (32, 32)"
  by code_simp+

lemma parse_16: "ParseCIDR4 ''172.16.0.0/16'' = Some \<lparr>IP = [172, 16, 0, 0], Mask = [255, 255, 0, 0]\<rparr>"
  by (simp add: parse_simps masks_used)

lemma parse_22: "ParseCIDR4 ''192.168.0.0/22'' = Some \<lparr>IP = [192, 168, 0, 0], Mask = [255, 255, 252, 0]\<rparr>"
  by (simp add: parse_simps masks_used)

lemma parse_23: "ParseCIDR4 ''10.0.0.0/23'' = Some \<lparr>IP = [10, 0, 0, 0], Mask = [255, 255, 254, 0]\<rparr>"
  by (simp add: parse_simps masks_used)

lemma parse_30: "ParseCIDR4 ''10.0.0.0/30'' = Some \<lparr>IP = [10, 0, 0, 0], Mask = [255, 255, 255, 252]\<rparr>"
  by (simp add: parse_simps masks_used)

lemma parse_31: "ParseCIDR4 ''10.0.0.0/31'' = Some \<lparr>IP = [10, 0, 0, 0], Mask = [255, 255, 255, 254]\<rparr>"
  by (simp add: parse_simps masks_used)

lemma parse_32: "ParseCIDR4 ''10.0.0.7/32'' = Some \<lparr>IP = [10, 0, 0, 7], Mask = [255, 255, 255, 255]\<rparr>"
  by (simp add: parse_simps masks_used)

lemma loop_30: "hostLoop 3 3 1 [10, 0, 0, 0] [] = ([[10, 0, 0, 1], [10, 0, 0, 2]], Inr [10, 0, 0, 2])"
  by (simp add: hostLoop.simps increment_def)

lemma analyze_30:
  "analyze ParseCIDR4 Run w ''10.0.0.0/30'' =
     (case fold (task Run) [[10, 0, 0, 1], [10, 0, 0, 2]] (cells w, Map.empty) of
        (cs, addressPool) \<Rightarrow>
          (Inr addressPool, \<lparr>cells = cs, probes = probes w @ [[10, 0, 0, 1], [10, 0, 0, 2]]\<rparr>))"
  using analyze_valid4 [of ParseCIDR4 "''10.0.0.0/30''", OF parse_30 ParseCIDR4_valid4 [OF parse_30], of Run w]
  by (simp add: prefixBits_def hostBits_def sizes_used loop_30)

lemma startedBy_append: "startedBy w \<lparr>cells = cs, probes = probes w @ L\<rparr> = L"
  "startedBy w (w\<lparr>probes := probes w @ L\<rparr>) = L"
  by (simp_all add: startedBy_def)

subsection \<open>Networks without hosts\<close>

text \<open>
  C9. For a prefix of 31 or 32 bits \<open>maximumNumberOfHostst\<close> is 0 or \<open>-1\<close>, computed on
  signed integers without wrap-around; the loop does not run, no probe is started, and
  \<open>analyze\<close> returns the empty pool and no error.
\<close>

theorem analyze_degenerate:
  assumes "ParseCIDR s = Some network" and "valid4 network"
    and "prefixBits network = 31 \<or> prefixBits network = 32"
  shows "analyze ParseCIDR Run w s = (Inr Map.empty, w) \<and>
         int64 (shl1 (hostBits network) - 2) = (if prefixBits network = 31 then 0 else - 1)"
proof -
  note v = valid4D [OF assms(2)]
  from assms(3) have p: "24 \<le> prefixBits network" by auto
  from assms(3) v(5) have h: "hostBits network = 0 \<or> hostBits network = 1" by auto
  from analyze_returns [of ParseCIDR s, OF assms(1,2) p, where Run = Run and w = w] obtain L
    where a: "analyze ParseCIDR Run w s =
               (Inr (\<lambda>r. if length (cells w) \<le> r \<and> r < length (cells w) + length L
                          then (case pingAddress Run (L ! (r - length (cells w))) of
                                  Inl err \<Rightarrow> None | Inr used \<Rightarrow> Some used)
                          else None),
                \<lparr>cells = cells w @ L, probes = probes w @ L\<rparr>)"
      and l: "length L = 2 ^ hostBits network - 2"
    by blast
  from l h have "L = []" by auto
  with a have "analyze ParseCIDR Run w s = (Inr Map.empty, w)" by (auto simp add: fun_eq_iff)
  moreover have "hostBits network \<le> 32" using v(5) by simp
  then have "int64 (shl1 (hostBits network) - 2) = 2 ^ hostBits network - 2"
    by (rule bound_valid4(1))
  then have "int64 (shl1 (hostBits network) - 2) = (if prefixBits network = 31 then 0 else - 1)"
    using assms(3) v(5) by auto
  ultimately show ?thesis by simp
qed

theorem analyze_degenerate_witness:
  "ParseCIDR4 ''10.0.0.0/31'' = Some \<lparr>IP = [10, 0, 0, 0], Mask = [255, 255, 255, 254]\<rparr> \<and>
   valid4 \<lparr>IP = [10, 0, 0, 0], Mask = [255, 255, 255, 254]\<rparr> \<and>
   prefixBits \<lparr>IP = [10, 0, 0, 0], Mask = [255, 255, 255, 254]\<rparr> = 31 \<and>
   analyze ParseCIDR4 (\<lambda>p. (None, p\<lparr>PacketsRecv := 1\<rparr>)) \<lparr>cells = [], probes = []\<rparr> ''10.0.0.0/31''
     = (Inr Map.empty, \<lparr>cells = [], probes = []\<rparr>) \<and>
   ParseCIDR4 ''10.0.0.7/32'' = Some \<lparr>IP = [10, 0, 0, 7], Mask = [255, 255, 255, 255]\<rparr> \<and>
   valid4 \<lparr>IP = [10, 0, 0, 7], Mask = [255, 255, 255, 255]\<rparr> \<and>
   prefixBits \<lparr>IP = [10, 0, 0, 7], Mask = [255, 255, 255, 255]\<rparr> = 32 \<and>
   analyze ParseCIDR4 (\<lambda>p. (None, p\<lparr>PacketsRecv := 1\<rparr>)) \<lparr>cells = [], probes = []\<rparr> ''10.0.0.7/32''
     = (Inr Map.empty, \<lparr>cells = [], probes = []\<rparr>)"
proof -
  have p31: "prefixBits \<lparr>IP = [10, 0, 0, 0], Mask = [255, 255, 255, 254]\<rparr> = 31"
    and p32: "prefixBits \<lparr>IP = [10, 0, 0, 7], Mask = [255, 255, 255, 255]\<rparr> = 32"
    by (simp_all add: prefixBits_def sizes_used)
  note v31 = ParseCIDR4_valid4 [OF parse_31] and v32 = ParseCIDR4_valid4 [OF parse_32]
  from p31 have c31: "prefixBits \<lparr>IP = [10, 0, 0, 0], Mask = [255, 255, 255, 254]\<rparr> = 31 \<or>
                      prefixBits \<lparr>IP = [10, 0, 0, 0], Mask = [255, 255, 255, 254]\<rparr> = 32" by simp
  from p32 have c32: "prefixBits \<lparr>IP = [10, 0, 0, 7], Mask = [255, 255, 255, 255]\<rparr> = 31 \<or>
                      prefixBits \<lparr>IP = [10, 0, 0, 7], Mask = [255, 255, 255, 255]\<rparr> = 32" by simp
  from analyze_degenerate [of ParseCIDR4 "''10.0.0.0/31''", OF parse_31 v31 c31]
       analyze_degenerate [of ParseCIDR4 "''10.0.0.7/32''", OF parse_32 v32 c32]
       parse_31 parse_32 v31 v32 p31 p32
  show ?thesis by simp
qed

subsection \<open>Prefixes shorter than 24 bits\<close>

text \<open>
  On every IPv4 network with a prefix of at most 23 bits \<open>analyze\<close> ends in the panic
  of \<open>increment\<close>, after as many probes as the bytes had room for.
\<close>

lemma analyze_short_prefix:
  assumes "ParseCIDR s = Some network" and "valid4 network" and "prefixBits network \<le> 23"
  shows "fst (analyze ParseCIDR Run w s) = Inl IndexOutOfRange"
    and "length (startedBy w (snd (analyze ParseCIDR Run w s))) = room (prefixBits network div 8) (IP network)"
proof -
  from analyze_panics [of ParseCIDR s, OF assms, where Run = Run and w = w] obtain L
    where a: "analyze ParseCIDR Run w s = (Inl IndexOutOfRange, w\<lparr>probes := probes w @ L\<rparr>)"
      and l: "length L = room (prefixBits network div 8) (IP network)"
    by blast
  from a show "fst (analyze ParseCIDR Run w s) = Inl IndexOutOfRange" by simp
  from a l show "length (startedBy w (snd (analyze ParseCIDR Run w s))) = room (prefixBits network div 8) (IP network)"
    by (simp add: startedBy_append)
qed

text \<open>
  C1 at \<open>10.0.0.0/23\<close>: nine host bits, so 510 hosts to enumerate; the loop starts 508
  probes (for \<open>10.0.1.0\<close> up to \<open>10.0.254.0\<close>, then \<open>10.0.254.1\<close> up to
  \<open>10.0.254.254\<close>) and panics in round 509.
\<close>

theorem analyze_23_stops_short:
  "hostBits \<lparr>IP = [10, 0, 0, 0], Mask = [255, 255, 254, 0]\<rparr> = 9 \<and>
   fst (analyze ParseCIDR4 Run w ''10.0.0.0/23'') = Inl IndexOutOfRange \<and>
   length (startedBy w (snd (analyze ParseCIDR4 Run w ''10.0.0.0/23''))) = 508"
proof -
  have p: "prefixBits \<lparr>IP = [10, 0, 0, 0], Mask = [255, 255, 254, 0]\<rparr> \<le> 23"
    by (simp add: prefixBits_def sizes_used)
  note s = analyze_short_prefix [of ParseCIDR4 "''10.0.0.0/23''", OF parse_23 ParseCIDR4_valid4 [OF parse_23] p,
      where Run = Run and w = w]
  have "room (prefixBits \<lparr>IP = [10, 0, 0, 0], Mask = [255, 255, 254, 0]\<rparr> div 8) [10, 0, 0, 0] = 508"
    by (simp add: prefixBits_def sizes_used room_def)
  with s show ?thesis by (simp add: hostBits_def sizes_used)
qed

text \<open>
  C4: the scan of \<open>increment\<close> leaves the slice when every byte from the start index on
  is 254, and \<open>analyze\<close> gets there on \<open>172.16.0.0/16\<close>.
\<close>

theorem increment_runs_off_the_end:
  "increment [0, 0, 0, 254] 3 1 = Inl IndexOutOfRange \<and>
   increment [172, 16, 254, 254] 2 1 = Inl IndexOutOfRange \<and>
   fst (analyze ParseCIDR4 Run w ''172.16.0.0/16'') = Inl IndexOutOfRange"
proof -
  have p: "prefixBits \<lparr>IP = [172, 16, 0, 0], Mask = [255, 255, 0, 0]\<rparr> \<le> 23"
    by (simp add: prefixBits_def sizes_used)
  note s = analyze_short_prefix(1) [of ParseCIDR4 "''172.16.0.0/16''", OF parse_16 ParseCIDR4_valid4 [OF parse_16] p,
      where Run = Run and w = w]
  then show ?thesis by (simp add: increment_def)
qed

text \<open>
  C6 at \<open>192.168.0.0/22\<close> with every probe failing: the call does not return the empty
  pool, it panics.
\<close>

theorem analyze_22_all_probes_err:
  "analyze ParseCIDR4 (\<lambda>p. (Some ''sendto: network is unreachable'', p)) w ''192.168.0.0/22''
     \<noteq> (Inr Map.empty, w') \<and>
   fst (analyze ParseCIDR4 (\<lambda>p. (Some ''sendto: network is unreachable'', p)) w ''192.168.0.0/22'')
     = Inl IndexOutOfRange"
proof -
  have p: "prefixBits \<lparr>IP = [192, 168, 0, 0], Mask = [255, 255, 252, 0]\<rparr> \<le> 23"
    by (simp add: prefixBits_def sizes_used)
  note s = analyze_short_prefix(1) [of ParseCIDR4 "''192.168.0.0/22''", OF parse_22 ParseCIDR4_valid4 [OF parse_22] p,
      where Run = "\<lambda>p. (Some ''sendto: network is unreachable'', p)" and w = w]
  then show ?thesis by auto
qed

subsection \<open>Prefixes of 24 bits and more\<close>

text \<open>
  Where the loop comes to its end, \<open>2 ^ h - 2\<close> probes are started, and when every
  probe errs the pool is empty and no error is returned.
\<close>

lemma analyze_counts_hosts:
  assumes "ParseCIDR s = Some network" and "valid4 network" and "24 \<le> prefixBits network"
  shows "\<exists>addressPool. fst (analyze ParseCIDR Run w s) = Inr addressPool"
    and "length (startedBy w (snd (analyze ParseCIDR Run w s))) = 2 ^ hostBits network - 2"
proof -
  from analyze_returns [of ParseCIDR s, OF assms, where Run = Run and w = w] obtain L pool
    where a: "analyze ParseCIDR Run w s = (Inr pool, \<lparr>cells = cells w @ L, probes = probes w @ L\<rparr>)"
      and l: "length L = 2 ^ hostBits network - 2"
    by blast
  from a show "\<exists>addressPool. fst (analyze ParseCIDR Run w s) = Inr addressPool" by simp
  from a l show "length (startedBy w (snd (analyze ParseCIDR Run w s))) = 2 ^ hostBits network - 2"
    by (simp add: startedBy_append)
qed

lemma analyze_all_probes_err:
  assumes "ParseCIDR s = Some network" and "valid4 network" and "24 \<le> prefixBits network"
    and "\<And>ip. \<exists>err. pingAddress Run ip = Inl err"
  shows "fst (analyze ParseCIDR Run w s) = Inr Map.empty"
proof -
  from analyze_returns [of ParseCIDR s, OF assms(1-3), where Run = Run and w = w] obtain L
    where a: "analyze ParseCIDR Run w s =
               (Inr (\<lambda>r. if length (cells w) \<le> r \<and> r < length (cells w) + length L
                          then (case pingAddress Run (L ! (r - length (cells w))) of
                                  Inl err \<Rightarrow> None | Inr used \<Rightarrow> Some used)
                          else None),
                \<lparr>cells = cells w @ L, probes = probes w @ L\<rparr>)"
    by blast
  have "(case pingAddress Run ip of Inl err \<Rightarrow> None | Inr used \<Rightarrow> Some used) = None" for ip
    using assms(4) [of ip] by auto
  with a show ?thesis by (simp add: fun_eq_iff)
qed

subsection \<open>The pool\<close>

text \<open>
  C2. On the network of an IPv4 string, the address under every key of a pool that
  \<open>analyze\<close> returns lies strictly between the network's address and its broadcast
  address; and whether \<open>analyze\<close> returns or panics, no probe is started for either of
  the two.
\<close>

theorem pool_inside_network:
  assumes "ParseCIDR s = Some network" and "valid4 network"
    and "analyze ParseCIDR Run w s = (res, w')"
  shows "(\<forall>addressPool key. res = Inr addressPool \<and> key \<in> dom addressPool \<longrightarrow>
            ipval (IP network) < ipval (cells w' ! key) \<and>
            ipval (cells w' ! key) < ipval (broadcast network)) \<and>
         IP network \<notin> set (startedBy w w') \<and> broadcast network \<notin> set (startedBy w w')"
proof (cases "24 \<le> prefixBits network")
  case True
  from analyze_returns [of ParseCIDR s, OF assms(1,2) True, where Run = Run and w = w] obtain L
    where a: "analyze ParseCIDR Run w s =
               (Inr (\<lambda>r. if length (cells w) \<le> r \<and> r < length (cells w) + length L
                          then (case pingAddress Run (L ! (r - length (cells w))) of
                                  Inl err \<Rightarrow> None | Inr used \<Rightarrow> Some used)
                          else None),
                \<lparr>cells = cells w @ L, probes = probes w @ L\<rparr>)"
      and m: "\<forall>b \<in> set L. length b = 4 \<and> ipval (IP network) < ipval b \<and>
                  ipval b + 2 \<le> ipval (IP network) + 2 ^ hostBits network"
    by blast
  note bc = broadcast_large [OF assms(2) True]
  have inside: "ipval (IP network) < ipval b \<and> ipval b < ipval (broadcast network)" if "b \<in> set L" for b
    using m that bc by fastforce
  from a assms(3) have w': "w' = \<lparr>cells = cells w @ L, probes = probes w @ L\<rparr>"
    and res: "res = Inr (\<lambda>r. if length (cells w) \<le> r \<and> r < length (cells w) + length L
                          then (case pingAddress Run (L ! (r - length (cells w))) of
                                  Inl err \<Rightarrow> None | Inr used \<Rightarrow> Some used)
                          else None)"
    by simp_all
  have st: "startedBy w w' = L" by (simp add: w' startedBy_append)
  have "ipval (IP network) < ipval (cells w' ! key) \<and> ipval (cells w' ! key) < ipval (broadcast network)"
    if "res = Inr addressPool" and "key \<in> dom addressPool" for addressPool key
  proof -
    from that res have k: "length (cells w) \<le> key" "key < length (cells w) + length L"
      by (auto split: if_splits)
    then have "cells w' ! key = L ! (key - length (cells w))"
      by (simp add: w' nth_append)
    moreover from k have "L ! (key - length (cells w)) \<in> set L" by simp
    ultimately show ?thesis using inside by simp
  qed
  moreover have "IP network \<notin> set (startedBy w w')" using inside st by auto
  moreover have "broadcast network \<notin> set (startedBy w w')" using inside st by auto
  ultimately show ?thesis by blast
next
  case False
  then have p: "prefixBits network \<le> 23" by simp
  from analyze_panics [of ParseCIDR s, OF assms(1,2) p, where Run = Run and w = w] obtain L
    where a: "analyze ParseCIDR Run w s = (Inl IndexOutOfRange, w\<lparr>probes := probes w @ L\<rparr>)"
      and m: "\<forall>b \<in> set L. length b = 4 \<and> unat (b ! 3) \<le> 254 \<and> ipval (IP network) < ipval b"
    by blast
  from a assms(3) have w': "w' = w\<lparr>probes := probes w @ L\<rparr>" and res: "res = Inl IndexOutOfRange"
    by simp_all
  have st: "startedBy w w' = L" by (simp add: w' startedBy_append)
  have "IP network \<notin> set (startedBy w w')" using m st by auto
  moreover have "broadcast network \<notin> set (startedBy w w')"
  proof
    assume "broadcast network \<in> set (startedBy w w')"
    with m st have "unat (broadcast network ! 3) \<le> 254" by simp
    with broadcast_small [OF assms(2) p] show False by simp
  qed
  ultimately show ?thesis using res by simp
qed

theorem pool_inside_network_witness:
  "ParseCIDR4 ''10.0.0.0/30'' = Some \<lparr>IP = [10, 0, 0, 0], Mask = [255, 255, 255, 252]\<rparr> \<and>
   valid4 \<lparr>IP = [10, 0, 0, 0], Mask = [255, 255, 255, 252]\<rparr> \<and>
   analyze ParseCIDR4 (\<lambda>p. (None, p\<lparr>PacketsRecv := 1\<rparr>)) \<lparr>cells = [], probes = []\<rparr> ''10.0.0.0/30''
     = (Inr [0 \<mapsto> True, 1 \<mapsto> True],
        \<lparr>cells = [[10, 0, 0, 1], [10, 0, 0, 2]], probes = [[10, 0, 0, 1], [10, 0, 0, 2]]\<rparr>) \<and>
   broadcast \<lparr>IP = [10, 0, 0, 0], Mask = [255, 255, 255, 252]\<rparr> = [10, 0, 0, 3] \<and>
   ipval [10, 0, 0, 0] < ipval [10, 0, 0, 1] \<and> ipval [10, 0, 0, 1] < ipval [10, 0, 0, 3] \<and>
   ipval [10, 0, 0, 0] < ipval [10, 0, 0, 2] \<and> ipval [10, 0, 0, 2] < ipval [10, 0, 0, 3] \<and>
   [10, 0, 0, 0] \<notin> set [[10, 0, 0, 1], [10, 0, 0, 2 :: byte]] \<and>
   [10, 0, 0, 3] \<notin> set [[10, 0, 0, 1], [10, 0, 0, 2 :: byte]]"
proof -
  let ?R = "\<lambda>p :: Pinger. (None :: string option, p\<lparr>PacketsRecv := 1\<rparr>)"
  let ?N = "\<lparr>IP = [10, 0, 0, 0], Mask = [255, 255, 255, 252]\<rparr>"
  have e: "analyze ParseCIDR4 ?R \<lparr>cells = [], probes = []\<rparr> ''10.0.0.0/30''
     = (Inr [0 \<mapsto> True, 1 \<mapsto> True],
        \<lparr>cells = [[10, 0, 0, 1], [10, 0, 0, 2]], probes = [[10, 0, 0, 1], [10, 0, 0, 2]]\<rparr>)"
    by (simp add: analyze_30 task_def pingAddress_def New_def)
  have b: "broadcast ?N = [10, 0, 0, 3]"
    by (simp add: broadcast_def)
  note t = pool_inside_network [of ParseCIDR4 "''10.0.0.0/30''", OF parse_30 ParseCIDR4_valid4 [OF parse_30] e]
  have d0: "(0 :: nat) \<in> dom [0 \<mapsto> True, 1 \<mapsto> True]" and d1: "(1 :: nat) \<in> dom [0 \<mapsto> True, 1 \<mapsto> True]"
    by simp_all
  from t have "ipval (IP ?N) < ipval ([[10, 0, 0, 1], [10, 0, 0, 2]] ! 0) \<and>
               ipval ([[10, 0, 0, 1], [10, 0, 0, 2]] ! 0) < ipval (broadcast ?N)"
    using d0 by fastforce
  moreover from t have "ipval (IP ?N) < ipval ([[10, 0, 0, 1], [10, 0, 0, 2]] ! 1) \<and>
               ipval ([[10, 0, 0, 1], [10, 0, 0, 2]] ! 1) < ipval (broadcast ?N)"
    using d1 by fastforce
  moreover from t have "IP ?N \<notin> set [[10, 0, 0, 1], [10, 0, 0, 2]] \<and>
                        broadcast ?N \<notin> set [[10, 0, 0, 1], [10, 0, 0, 2]]"
    by (simp add: startedBy_def)
  ultimately show ?thesis
    using parse_30 ParseCIDR4_valid4 [OF parse_30] e b by simp
qed

text \<open>
  C5, as the code has it. The keys of the pool are the cells of the goroutines'
  parameters: the call allocates one cell per probe it starts, holding that probe's
  address; the addresses are pairwise distinct; every key is one of these cells; and the
  cell of a probe maps to the probe's verdict, or to nothing when the probe erred.
\<close>

theorem pool_keys_are_cells:
  assumes "ParseCIDR s = Some network" and "valid4 network"
    and "analyze ParseCIDR Run w s = (Inr addressPool, w')"
  shows "cells w' = cells w @ startedBy w w' \<and> distinct (startedBy w w') \<and>
         dom addressPool \<subseteq> {length (cells w)..<length (cells w')} \<and>
         (\<forall>i < length (startedBy w w').
            addressPool (length (cells w) + i) =
              (case pingAddress Run (startedBy w w' ! i) of Inl err \<Rightarrow> None | Inr used \<Rightarrow> Some used))"
proof (cases "24 \<le> prefixBits network")
  case False
  then have p: "prefixBits network \<le> 23" by simp
  from analyze_panics [of ParseCIDR s, OF assms(1,2) p, where Run = Run and w = w] assms(3)
  show ?thesis by auto
next
  case True
  from analyze_returns [of ParseCIDR s, OF assms(1,2) True, where Run = Run and w = w] obtain L
    where a: "analyze ParseCIDR Run w s =
               (Inr (\<lambda>r. if length (cells w) \<le> r \<and> r < length (cells w) + length L
                          then (case pingAddress Run (L ! (r - length (cells w))) of
                                  Inl err \<Rightarrow> None | Inr used \<Rightarrow> Some used)
                          else None),
                \<lparr>cells = cells w @ L, probes = probes w @ L\<rparr>)"
      and d: "distinct L"
    by blast
  from a assms(3) have w': "w' = \<lparr>cells = cells w @ L, probes = probes w @ L\<rparr>"
    and pool: "addressPool = (\<lambda>r. if length (cells w) \<le> r \<and> r < length (cells w) + length L
                          then (case pingAddress Run (L ! (r - length (cells w))) of
                                  Inl err \<Rightarrow> None | Inr used \<Rightarrow> Some used)
                          else None)"
    by simp_all
  have st: "startedBy w w' = L" by (simp add: w' startedBy_append)
  have "cells w' = cells w @ startedBy w w'" by (simp add: st) (simp add: w')
  moreover have "distinct (startedBy w w')" using d st by simp
  moreover have "dom addressPool \<subseteq> {length (cells w)..<length (cells w')}"
    by (auto simp add: pool w' split: if_splits)
  moreover have "\<forall>i < length (startedBy w w').
            addressPool (length (cells w) + i) =
              (case pingAddress Run (startedBy w w' ! i) of Inl err \<Rightarrow> None | Inr used \<Rightarrow> Some used)"
    by (simp add: st pool)
  ultimately show ?thesis by blast
qed

theorem pool_keys_are_cells_witness:
  "ParseCIDR4 ''10.0.0.0/30'' = Some \<lparr>IP = [10, 0, 0, 0], Mask = [255, 255, 255, 252]\<rparr> \<and>
   valid4 \<lparr>IP = [10, 0, 0, 0], Mask = [255, 255, 255, 252]\<rparr> \<and>
   analyze ParseCIDR4
     (\<lambda>p. if addr p = ''10.0.0.2'' then (None, p\<lparr>PacketsRecv := 2\<rparr>) else (Some ''no route to host'', p))
     \<lparr>cells = [[192, 168, 1, 1]], probes = [[192, 168, 1, 1]]\<rparr> ''10.0.0.0/30''
     = (Inr [2 \<mapsto> True],
        \<lparr>cells = [[192, 168, 1, 1], [10, 0, 0, 1], [10, 0, 0, 2]],
           probes = [[192, 168, 1, 1], [10, 0, 0, 1], [10, 0, 0, 2]]\<rparr>) \<and>
   distinct [[10, 0, 0, 1], [10, 0, 0, 2 :: byte]] \<and>
   dom [(2 :: nat) \<mapsto> True] \<subseteq> {1..<3}"
proof -
  let ?R = "\<lambda>p. if addr p = ''10.0.0.2'' then (None :: string option, p\<lparr>PacketsRecv := 2\<rparr>)
                 else (Some ''no route to host'', p)"
  let ?w = "\<lparr>cells = [[192, 168, 1, 1]], probes = [[192, 168, 1, 1]]\<rparr>"
  have s: "IP_String [10, 0, 0, 1] = ''10.0.0.1''" "IP_String [10, 0, 0, 2] = ''10.0.0.2''"
    by code_simp+
  have e: "analyze ParseCIDR4 ?R ?w ''10.0.0.0/30''
     = (Inr [2 \<mapsto> True],
        \<lparr>cells = [[192, 168, 1, 1], [10, 0, 0, 1], [10, 0, 0, 2]],
           probes = [[192, 168, 1, 1], [10, 0, 0, 1], [10, 0, 0, 2]]\<rparr>)"
    by (simp add: analyze_30 task_def pingAddress_def New_def s numeral_2_eq_2)
  from pool_keys_are_cells [of ParseCIDR4 "''10.0.0.0/30''", OF parse_30 ParseCIDR4_valid4 [OF parse_30] e]
  have "distinct [[10, 0, 0, 1], [10, 0, 0, 2 :: byte]] \<and> dom [(2 :: nat) \<mapsto> True] \<subseteq> {1..<3}"
    by (simp add: startedBy_def)
  then show ?thesis
    using parse_30 ParseCIDR4_valid4 [OF parse_30] e by simp
qed

text \<open>
  C5 as the specification words it fails: the pool is not keyed by the value of the
  address. Two calls on \<open>10.0.0.0/30\<close>, one after the other, give pools with no key in
  common, although cell 0 and cell 2 hold the same address \<open>10.0.0.1\<close>.
\<close>

theorem pool_keys_counterexample:
  "analyze ParseCIDR4 (\<lambda>p. (None, p\<lparr>PacketsRecv := 1\<rparr>)) \<lparr>cells = [], probes = []\<rparr> ''10.0.0.0/30''
     = (Inr [0 \<mapsto> True, 1 \<mapsto> True],
        \<lparr>cells = [[10, 0, 0, 1], [10, 0, 0, 2]], probes = [[10, 0, 0, 1], [10, 0, 0, 2]]\<rparr>) \<and>
   analyze ParseCIDR4 (\<lambda>p. (None, p\<lparr>PacketsRecv := 1\<rparr>))
     \<lparr>cells = [[10, 0, 0, 1], [10, 0, 0, 2]], probes = [[10, 0, 0, 1], [10, 0, 0, 2]]\<rparr> ''10.0.0.0/30''
     = (Inr [2 \<mapsto> True, 3 \<mapsto> True],
        \<lparr>cells = [[10, 0, 0, 1], [10, 0, 0, 2], [10, 0, 0, 1], [10, 0, 0, 2]],
           probes = [[10, 0, 0, 1], [10, 0, 0, 2], [10, 0, 0, 1], [10, 0, 0, 2]]\<rparr>) \<and>
   [[10, 0, 0, 1], [10, 0, 0, 2], [10, 0, 0, 1], [10, 0, 0, 2 :: byte]] ! 0
     = [[10, 0, 0, 1], [10, 0, 0, 2], [10, 0, 0, 1], [10, 0, 0, 2]] ! 2 \<and>
   dom [(0 :: nat) \<mapsto> True, 1 \<mapsto> True] \<inter> dom [(2 :: nat) \<mapsto> True, 3 \<mapsto> True] = {}"
  by (simp add: analyze_30 task_def pingAddress_def New_def numeral_2_eq_2 numeral_3_eq_3)

end
